theory Spec2Isabelle
  imports Complex_Main
begin

section \<open>The CPU manager of \<^verbatim>\<open>cpu_manager.py\<close>\<close>

text \<open>
  The module has two classes. \<^verbatim>\<open>CPUManager\<close> owns the shared usage reading, which a
  background thread writes and every caller reads; \<^verbatim>\<open>ProcessThrottler\<close> counts the
  processes in flight and runs task lists in batches.

  The logger calls are left out: they write no field.
\<close>

subsection \<open>Floats\<close>

text \<open>
  A Python float is modelled by the real number it denotes. Comparisons of floats are
  exact, so they are the comparisons of the reals. Subtraction and multiplication
  round their result: \<open>fl_sub fl a b\<close> is the float that \<^verbatim>\<open>a - b\<close> gives and
  \<open>fl_mul fl a b\<close> the float that \<^verbatim>\<open>a * b\<close> gives. The two operations are parameters
  of the model, and what is proved holds for every float arithmetic.
\<close>

record float_ops =
  fl_sub :: "real \<Rightarrow> real \<Rightarrow> real"
  fl_mul :: "real \<Rightarrow> real \<Rightarrow> real"

text \<open>
  The literals \<^verbatim>\<open>0.1\<close> and \<^verbatim>\<open>0.2\<close> are not the tenth and the fifth but the doubles next
  to them. The other literals of the module (0.5, 1.0, 1.5, 2.0, the integers) are
  exact.
\<close>

definition float_0_1 :: real where
  "float_0_1 = 3602879701896397 / 2 ^ 55"

definition float_0_2 :: real where
  "float_0_2 = 3602879701896397 / 2 ^ 54"

subsection \<open>The manager object\<close>

record CPUManager =
  max_cpu_percent :: real
  check_interval :: real
  monitoring :: bool
  current_cpu_usage :: real
  throttle_active :: bool

text \<open>\<^verbatim>\<open>__init__(max_cpu_percent=80.0, check_interval=1.0)\<close>\<close>

definition init_CPUManager :: "real \<Rightarrow> real \<Rightarrow> CPUManager" where
  "init_CPUManager max_cpu interval =
     \<lparr>max_cpu_percent = max_cpu, check_interval = interval, monitoring = False,
      current_cpu_usage = 0, throttle_active = False\<rparr>"

text \<open>\<^verbatim>\<open>start_monitoring\<close> and \<^verbatim>\<open>stop_monitoring\<close>, as far as they write fields.\<close>

definition start_monitoring :: "CPUManager \<Rightarrow> CPUManager" where
  "start_monitoring s = (if \<not> monitoring s then s\<lparr>monitoring := True\<rparr> else s)"

definition stop_monitoring :: "CPUManager \<Rightarrow> CPUManager" where
  "stop_monitoring s = s\<lparr>monitoring := False\<rparr>"

subsection \<open>The background sampling loop\<close>

text \<open>
  One call of \<^verbatim>\<open>psutil.cpu_percent(interval=1)\<close> either returns a percentage or raises.
  The loop has no handler, so an exception leaves \<^verbatim>\<open>_monitor_cpu\<close> and ends its thread.
\<close>

datatype sampling = Sampled real | SamplingFailure

text \<open>
  How a run of the loop stands after a finite list of sampler outcomes: still in the
  loop, left through the guard \<^verbatim>\<open>while self.monitoring\<close>, or left by the exception.
\<close>

datatype loop_exit = Running | Stopped | Raised

text \<open>
  The loop body from the assignment of the sample to the update of the flag. The
  sleep of \<^verbatim>\<open>check_interval\<close> that ends the body writes no field.
\<close>

definition monitor_iteration :: "CPUManager \<Rightarrow> real \<Rightarrow> CPUManager" where
  "monitor_iteration s v =
     (let s1 = s\<lparr>current_cpu_usage := v\<rparr>
      in if current_cpu_usage s1 \<ge> max_cpu_percent s1
         then s1\<lparr>throttle_active := True\<rparr>
         else s1\<lparr>throttle_active := False\<rparr>)"

fun monitor_cpu :: "CPUManager \<Rightarrow> sampling list \<Rightarrow> loop_exit \<times> CPUManager" where
  "monitor_cpu s [] = (if monitoring s then (Running, s) else (Stopped, s))"
| "monitor_cpu s (x # xs) =
     (if \<not> monitoring s then (Stopped, s)
      else case x of
             Sampled v \<Rightarrow> monitor_cpu (monitor_iteration s v) xs
           | SamplingFailure \<Rightarrow> (Raised, s))"

subsection \<open>What a caller sees of the shared object\<close>

text \<open>
  The fields \<^verbatim>\<open>throttle_active\<close> and \<^verbatim>\<open>current_cpu_usage\<close> change under a caller's
  feet. A caller's run is therefore taken over an environment: the sequence of
  readings it gets, one for each time it looks at the manager or at the clock, each
  with the manager as it is and the value \<^verbatim>\<open>time.time()\<close> has at that moment. The
  world of a run is the index of the next reading and the list of the durations
  passed to \<^verbatim>\<open>time.sleep\<close> so far.
\<close>

record reading =
  seen :: CPUManager
  clock :: real

type_synonym env = "nat \<Rightarrow> reading"

record world =
  pos :: nat
  slept :: "real list"

definition advance :: "world \<Rightarrow> world" where
  "advance w = w\<lparr>pos := Suc (pos w)\<rparr>"

definition sleep :: "real \<Rightarrow> world \<Rightarrow> world" where
  "sleep d w = w\<lparr>slept := slept w @ [d]\<rparr>"

subsection \<open>\<^verbatim>\<open>wait_for_cpu\<close>\<close>

text \<open>
  The test \<^verbatim>\<open>timeout and (time.time() - start_time) >= timeout\<close>: the first operand is
  the truth value of the argument, which is false for \<^verbatim>\<open>None\<close> and for zero.
\<close>

definition timed_out :: "float_ops \<Rightarrow> real option \<Rightarrow> real \<Rightarrow> real \<Rightarrow> bool" where
  "timed_out fl timeout start_time now =
     (case timeout of
        None \<Rightarrow> False
      | Some t \<Rightarrow> t \<noteq> 0 \<and> fl_sub fl now start_time \<ge> t)"

text \<open>The timeout arguments whose truth value is false.\<close>

definition falsy :: "real option \<Rightarrow> bool" where
  "falsy timeout = (timeout = None \<or> timeout = Some 0)"

text \<open>The progressive sleep of one iteration.\<close>

definition sleep_time :: "float_ops \<Rightarrow> CPUManager \<Rightarrow> real" where
  "sleep_time fl m =
     (let excess = fl_sub fl (current_cpu_usage m) (max_cpu_percent m)
      in if excess > 20 then 2
         else if excess > 10 then 1
         else 1 / 2)"

text \<open>
  The loop \<^verbatim>\<open>while self.throttle_active\<close>, one reading for each test of the flag. It
  may run forever, which is the value \<open>None\<close>; otherwise it gives the returned boolean
  and the world it leaves.
\<close>

partial_function (option) wait_loop ::
  "float_ops \<Rightarrow> real option \<Rightarrow> real \<Rightarrow> env \<Rightarrow> world \<Rightarrow> (bool \<times> world) option" where
  "wait_loop fl timeout start_time e w =
     (if throttle_active (seen (e (pos w))) then
        (if timed_out fl timeout start_time (clock (e (pos w))) then Some (False, advance w)
         else wait_loop fl timeout start_time e (sleep (sleep_time fl (seen (e (pos w)))) (advance w)))
      else Some (True, advance w))"

text \<open>\<^verbatim>\<open>start_time = time.time()\<close> is a reading of its own, before the loop.\<close>

definition wait_for_cpu ::
  "float_ops \<Rightarrow> real option \<Rightarrow> env \<Rightarrow> world \<Rightarrow> (bool \<times> world) option" where
  "wait_for_cpu fl timeout e w = wait_loop fl timeout (clock (e (pos w))) e (advance w)"

text \<open>
  \<^verbatim>\<open>throttled_execute(func)\<close>: wait without a timeout, call the function, sleep a tenth
  of a second, return what the function returned. An exception of the function
  propagates before the sleep.
\<close>

definition throttled_execute ::
  "float_ops \<Rightarrow> (unit \<Rightarrow> 'e + 'a) \<Rightarrow> env \<Rightarrow> world \<Rightarrow> ('e + 'a \<times> world) option" where
  "throttled_execute fl func e w =
     (case wait_for_cpu fl None e w of
        None \<Rightarrow> None
      | Some (_, w1) \<Rightarrow>
          (case func () of
             Inl x \<Rightarrow> Some (Inl x)
           | Inr result \<Rightarrow> Some (Inr (result, sleep float_0_1 w1))))"

subsection \<open>\<^verbatim>\<open>adaptive_sleep\<close>\<close>

definition adaptive_sleep_time :: "float_ops \<Rightarrow> CPUManager \<Rightarrow> real \<Rightarrow> real" where
  "adaptive_sleep_time fl m base_sleep =
     (if current_cpu_usage m > 90 then fl_mul fl base_sleep 3
      else if current_cpu_usage m > 80 then fl_mul fl base_sleep 2
      else if current_cpu_usage m > 70 then fl_mul fl base_sleep (3 / 2)
      else base_sleep)"

definition adaptive_sleep :: "float_ops \<Rightarrow> real \<Rightarrow> env \<Rightarrow> world \<Rightarrow> world" where
  "adaptive_sleep fl base_sleep e w =
     sleep (adaptive_sleep_time fl (seen (e (pos w))) base_sleep) (advance w)"

section \<open>The process throttler\<close>

text \<open>
  The throttler keeps a reference to the manager; what it reads through the reference
  is a reading of the environment, or the manager passed to \<open>can_start_process\<close>.
  \<^verbatim>\<open>process_count\<close> is a Python integer.
\<close>

record ProcessThrottler =
  process_count :: int
  max_concurrent :: int

text \<open>
  The exceptions that can leave the throttler: \<^verbatim>\<open>TypeError\<close> when
  \<^verbatim>\<open>psutil.cpu_count()\<close> is \<^verbatim>\<open>None\<close>, \<^verbatim>\<open>ValueError\<close> when \<^verbatim>\<open>range\<close> gets the step
  zero, and whatever a task raises, passed on as it is.
\<close>

datatype 'e error = TypeError | ValueError | TaskRaised 'e

text \<open>\<^verbatim>\<open>max(1, cpu_count // 2)\<close>, where \<^verbatim>\<open>psutil.cpu_count()\<close> may be \<^verbatim>\<open>None\<close>.\<close>

definition calculate_max_concurrent :: "int option \<Rightarrow> 'e error + int" where
  "calculate_max_concurrent cpu_count =
     (case cpu_count of
        None \<Rightarrow> Inl TypeError
      | Some n \<Rightarrow> Inr (max 1 (n div 2)))"

definition init_ProcessThrottler :: "int option \<Rightarrow> 'e error + ProcessThrottler" where
  "init_ProcessThrottler cpu_count =
     (case calculate_max_concurrent cpu_count of
        Inl x \<Rightarrow> Inl x
      | Inr m \<Rightarrow> Inr \<lparr>process_count = 0, max_concurrent = m\<rparr>)"

definition can_start_process :: "ProcessThrottler \<Rightarrow> CPUManager \<Rightarrow> bool" where
  "can_start_process t m =
     (process_count t < max_concurrent t \<and> \<not> throttle_active m)"

definition start_process ::
  "float_ops \<Rightarrow> ProcessThrottler \<Rightarrow> env \<Rightarrow> world \<Rightarrow> (ProcessThrottler \<times> world) option" where
  "start_process fl t e w =
     (case wait_for_cpu fl None e w of
        None \<Rightarrow> None
      | Some (_, w1) \<Rightarrow> Some (t\<lparr>process_count := process_count t + 1\<rparr>, w1))"

definition end_process :: "ProcessThrottler \<Rightarrow> ProcessThrottler" where
  "end_process t = t\<lparr>process_count := max 0 (process_count t - 1)\<rparr>"

text \<open>A sequence of calls of the two bracketing methods on one throttler.\<close>

datatype call = Begin | End

fun run_calls ::
  "float_ops \<Rightarrow> ProcessThrottler \<Rightarrow> call list \<Rightarrow> env \<Rightarrow> world \<Rightarrow> (ProcessThrottler \<times> world) option" where
  "run_calls fl t [] e w = Some (t, w)"
| "run_calls fl t (Begin # cs) e w =
     (case start_process fl t e w of
        None \<Rightarrow> None
      | Some (t1, w1) \<Rightarrow> run_calls fl t1 cs e w1)"
| "run_calls fl t (End # cs) e w = run_calls fl (end_process t) cs e w"

subsection \<open>\<^verbatim>\<open>throttled_batch_execute\<close>\<close>

text \<open>
  An element of the task list is a callable, which returns a value or raises when it
  is called, or some object that is not callable.
\<close>

datatype ('e, 'a) task = Callable "unit \<Rightarrow> 'e + 'a" | NotCallable

fun callable :: "('e, 'a) task \<Rightarrow> bool" where
  "callable (Callable f) = True"
| "callable NotCallable = False"

text \<open>
  \<^verbatim>\<open>range(0, n, step)\<close> for a step that is not zero: the multiples of a positive step
  below \<open>n\<close>, and nothing for a negative step.
\<close>

definition range_from_0 :: "nat \<Rightarrow> int \<Rightarrow> nat list" where
  "range_from_0 n step =
     (if step > 0 then map (\<lambda>k. k * nat step) [0..<(n + nat step - 1) div nat step]
      else [])"

text \<open>The inner loop \<^verbatim>\<open>for task in batch\<close>; the state is \<^verbatim>\<open>results\<close> and the world.\<close>

fun execute_batch ::
  "float_ops \<Rightarrow> env \<Rightarrow> ('e, 'a) task list \<Rightarrow> 'a list \<times> world \<Rightarrow> 'e error + 'a list \<times> world" where
  "execute_batch fl e [] (results, w) = Inr (results, w)"
| "execute_batch fl e (NotCallable # batch) (results, w) = execute_batch fl e batch (results, w)"
| "execute_batch fl e (Callable f # batch) (results, w) =
     (case f () of
        Inl x \<Rightarrow> Inl (TaskRaised x)
      | Inr result \<Rightarrow> execute_batch fl e batch (results @ [result], adaptive_sleep fl float_0_2 e w))"

text \<open>
  The outer loop \<^verbatim>\<open>for i in range(0, len(tasks), batch_size)\<close>, over the list of the
  indices; \<^verbatim>\<open>tasks[i:i + batch_size]\<close> is \<open>take batch_size (drop i tasks)\<close>.
\<close>

fun execute_batches ::
  "float_ops \<Rightarrow> env \<Rightarrow> ('e, 'a) task list \<Rightarrow> nat \<Rightarrow> nat list \<Rightarrow> 'a list \<times> world
     \<Rightarrow> ('e error + 'a list \<times> world) option" where
  "execute_batches fl e tasks batch_size [] (results, w) = Some (Inr (results, w))"
| "execute_batches fl e tasks batch_size (i # is) (results, w) =
     (case wait_for_cpu fl None e w of
        None \<Rightarrow> None
      | Some (_, w1) \<Rightarrow>
          (case execute_batch fl e (take batch_size (drop i tasks)) (results, w1) of
             Inl x \<Rightarrow> Some (Inl x)
           | Inr (results1, w2) \<Rightarrow>
               execute_batches fl e tasks batch_size is (results1, adaptive_sleep fl 1 e w2)))"

definition throttled_batch_execute ::
  "float_ops \<Rightarrow> ProcessThrottler \<Rightarrow> ('e, 'a) task list \<Rightarrow> int option \<Rightarrow> env \<Rightarrow> world
     \<Rightarrow> ('e error + 'a list \<times> world) option" where
  "throttled_batch_execute fl t tasks batch_size e w =
     (let batch_size = (case batch_size of None \<Rightarrow> max_concurrent t | Some b \<Rightarrow> b)
      in if batch_size = 0 then Some (Inl ValueError)
         else execute_batches fl e tasks (nat batch_size)
                (range_from_0 (length tasks) batch_size) ([], w))"

text \<open>What the caller gets: the exception or the returned list.\<close>

definition outcome :: "'e error + 'a list \<times> world \<Rightarrow> 'e error + 'a list" where
  "outcome r = (case r of Inl x \<Rightarrow> Inl x | Inr (results, w) \<Rightarrow> Inr results)"

text \<open>The functions of the callable elements of a task list, in the order of the list.\<close>

fun callables :: "('e, 'a) task list \<Rightarrow> (unit \<Rightarrow> 'e + 'a) list" where
  "callables [] = []"
| "callables (Callable f # ts) = f # callables ts"
| "callables (NotCallable # ts) = callables ts"

text \<open>
  The reference behaviour of the specification for a list of functions: call them one
  after the other, stop at the first that raises and pass its exception on, otherwise
  return the values in the order of the functions.
\<close>

fun results_in_order :: "(unit \<Rightarrow> 'e + 'a) list \<Rightarrow> 'e error + 'a list" where
  "results_in_order [] = Inr []"
| "results_in_order (f # fs) =
     (case f () of
        Inl x \<Rightarrow> Inl (TaskRaised x)
      | Inr v \<Rightarrow> (case results_in_order fs of Inl x \<Rightarrow> Inl x | Inr vs \<Rightarrow> Inr (v # vs)))"

section \<open>Assumptions on the environment\<close>

text \<open>
  From every reading on, some later reading finds the throttle flag clear: the load
  drops again and again, and the sampling loop is alive to see it.
\<close>

definition eventually_clear :: "env \<Rightarrow> bool" where
  "eventually_clear e = (\<forall>i. \<exists>j. \<not> throttle_active (seen (e (i + j))))"

section \<open>Environments used as examples\<close>

text \<open>A manager with the given ceiling as the sampling loop leaves it after a sample.\<close>

definition manager_at :: "real \<Rightarrow> real \<Rightarrow> CPUManager" where
  "manager_at max_cpu v =
     monitor_iteration ((init_CPUManager max_cpu 1)\<lparr>monitoring := True\<rparr>) v"

text \<open>
  The ceiling is 80. The sampler stays at 95 percent, and at 50 percent; the clock
  gives the index of the reading, in seconds.
\<close>

definition env_overloaded :: env where
  "env_overloaded k = \<lparr>seen = manager_at 80 95, clock = real k\<rparr>"

definition env_idle :: env where
  "env_idle k = \<lparr>seen = manager_at 80 50, clock = real k\<rparr>"

text \<open>The sampler is at 85 percent for the first three readings and at 60 from then on.\<close>

definition env_cooling :: env where
  "env_cooling k = \<lparr>seen = manager_at 80 (if k < 3 then 85 else 60), clock = real k\<rparr>"

text \<open>
  Arithmetic without rounding. Float arithmetic is exact on the values of the
  examples: differences of whole percentages and of whole seconds.
\<close>

definition exact_arith :: float_ops where
  "exact_arith = \<lparr>fl_sub = (\<lambda>a b. a - b), fl_mul = (\<lambda>a b. a * b)\<rparr>"

text \<open>
  Rounding as the doubles between 16 and 32 have it. They are the multiples of
  \<open>1 / 2 ^ 48\<close>, and the float difference of two floats whose difference lies there
  is the nearest multiple, the even one on a tie; a difference that is itself such a
  multiple is exact. The doubles written \<^verbatim>\<open>35.6\<close> and \<^verbatim>\<open>15.6\<close> are a pair whose
  difference is above 20 and rounds to 20.
\<close>

definition round_half_even :: "real \<Rightarrow> int" where
  "round_half_even x =
     (let n = \<lfloor>x\<rfloor>; f = x - of_int n
      in if f < 1 / 2 then n
         else if f > 1 / 2 then n + 1
         else if even n then n else n + 1)"

definition nearest_multiple :: "real \<Rightarrow> real \<Rightarrow> real" where
  "nearest_multiple u x = of_int (round_half_even (x / u)) * u"

definition arith_16_32 :: float_ops where
  "arith_16_32 =
     \<lparr>fl_sub = (\<lambda>a b. nearest_multiple (1 / 2 ^ 48) (a - b)), fl_mul = (\<lambda>a b. a * b)\<rparr>"

definition float_35_6 :: real where
  "float_35_6 = 5010254585449677 / 2 ^ 47"

definition float_15_6 :: real where
  "float_15_6 = 8782019273372467 / 2 ^ 49"

definition world0 :: world where
  "world0 = \<lparr>pos = 0, slept = []\<rparr>"

section \<open>Lemmas\<close>

subsection \<open>The sampling loop\<close>

lemma monitor_iteration_fields:
  "current_cpu_usage (monitor_iteration s v) = v"
  "max_cpu_percent (monitor_iteration s v) = max_cpu_percent s"
  "monitoring (monitor_iteration s v) = monitoring s"
  "check_interval (monitor_iteration s v) = check_interval s"
  "throttle_active (monitor_iteration s v) = (v \<ge> max_cpu_percent s)"
  by (simp_all add: monitor_iteration_def Let_def)

lemma monitor_cpu_append:
  "monitoring s \<Longrightarrow>
   monitor_cpu s (map Sampled vs @ rest) = monitor_cpu (snd (monitor_cpu s (map Sampled vs))) rest"
proof (induction vs arbitrary: s)
  case Nil
  then show ?case by (cases rest) simp_all
next
  case (Cons v vs)
  then show ?case by (simp add: monitor_iteration_fields)
qed

lemma monitor_cpu_samples:
  "monitoring s \<Longrightarrow>
   fst (monitor_cpu s (map Sampled vs)) = Running \<and>
   monitoring (snd (monitor_cpu s (map Sampled vs))) \<and>
   max_cpu_percent (snd (monitor_cpu s (map Sampled vs))) = max_cpu_percent s"
  by (induction vs arbitrary: s) (simp_all add: monitor_iteration_fields)

subsection \<open>The wait loop\<close>

lemma world_steps [simp]:
  "pos (advance w) = Suc (pos w)"
  "slept (advance w) = slept w"
  "pos (sleep d w) = pos w"
  "slept (sleep d w) = slept w @ [d]"
  by (simp_all add: advance_def sleep_def)

lemma falsy_not_timed_out: "falsy timeout \<Longrightarrow> \<not> timed_out fl timeout st now"
  by (auto simp: falsy_def timed_out_def)

lemma wait_loop_blocks:
  assumes "wait_loop fl timeout st e w = Some y"
    and "\<forall>k\<ge>pos w. throttle_active (seen (e k))"
    and "falsy timeout"
  shows False
  using assms
proof (induction rule: wait_loop.raw_induct[rotated 1, consumes 1])
  case (1 wl fl timeout st e w y)
  have thr: "throttle_active (seen (e (pos w)))" using "1.prems" by simp
  have nto: "\<not> timed_out fl timeout st (clock (e (pos w)))"
    using "1.prems" by (simp add: falsy_not_timed_out)
  from "1.hyps" thr nto
  have "wl fl timeout st e (sleep (sleep_time fl (seen (e (pos w)))) (advance w)) = Some y" by simp
  moreover have "\<forall>k\<ge>pos (sleep (sleep_time fl (seen (e (pos w)))) (advance w)). throttle_active (seen (e k))"
    using "1.prems" by simp
  ultimately show ?case using "1.IH" "1.prems" by blast
qed

lemma wait_loop_falsy_transfer:
  assumes "wait_loop fl timeout st e w = Some y"
    and "falsy timeout" and "falsy timeout'"
  shows "wait_loop fl timeout' st' e w = Some y"
  using assms
proof (induction rule: wait_loop.raw_induct[rotated 1, consumes 1])
  case (1 wl fl timeout st e w y)
  have nto: "\<not> timed_out fl timeout st (clock (e (pos w)))" "\<not> timed_out fl timeout' st' (clock (e (pos w)))"
    using "1.prems" by (simp_all add: falsy_not_timed_out)
  show ?case
  proof (cases "throttle_active (seen (e (pos w)))")
    case True
    with "1.hyps" nto
    have "wl fl timeout st e (sleep (sleep_time fl (seen (e (pos w)))) (advance w)) = Some y" by simp
    then have "wait_loop fl timeout' st' e (sleep (sleep_time fl (seen (e (pos w)))) (advance w)) = Some y"
      using "1.IH" "1.prems" by blast
    with True nto show ?thesis by (subst wait_loop.simps) simp
  next
    case False
    with "1.hyps" show ?thesis by (subst wait_loop.simps) simp
  qed
qed

lemma wait_loop_falsy_eq:
  assumes "falsy timeout" and "falsy timeout'"
  shows "wait_loop fl timeout st e w = wait_loop fl timeout' st' e w"
proof (cases "wait_loop fl timeout st e w")
  case None
  show ?thesis
  proof (cases "wait_loop fl timeout' st' e w")
    case None
    with \<open>wait_loop fl timeout st e w = None\<close> show ?thesis by simp
  next
    case (Some y)
    from wait_loop_falsy_transfer [OF Some assms(2) assms(1)]
    have "wait_loop fl timeout st e w = Some y" .
    with None show ?thesis by simp
  qed
next
  case (Some y)
  from wait_loop_falsy_transfer [OF Some assms(1) assms(2)] Some
  show ?thesis by simp
qed

lemma wait_loop_falsy_True:
  assumes "wait_loop fl timeout st e w = Some y" and "falsy timeout"
  shows "fst y = True"
  using assms
proof (induction rule: wait_loop.raw_induct[rotated 1, consumes 1])
  case (1 wl fl timeout st e w y)
  have nto: "\<not> timed_out fl timeout st (clock (e (pos w)))"
    using "1.prems" by (simp add: falsy_not_timed_out)
  show ?case
  proof (cases "throttle_active (seen (e (pos w)))")
    case True
    with "1.hyps" nto
    have "wl fl timeout st e (sleep (sleep_time fl (seen (e (pos w)))) (advance w)) = Some y" by simp
    then show ?thesis using "1.IH" "1.prems" by blast
  next
    case False
    with "1.hyps" show ?thesis by auto
  qed
qed

text \<open>Returning: the loop leaves at the first reading that is clear, if no deadline comes first.\<close>

lemma wait_loop_returns:
  assumes "\<not> throttle_active (seen (e (pos w + k)))"
  shows "\<exists>r w'. wait_loop fl timeout st e w = Some (r, w')"
  using assms
proof (induction k arbitrary: w)
  case 0
  then show ?case by (subst wait_loop.simps) auto
next
  case (Suc k)
  let ?w1 = "sleep (sleep_time fl (seen (e (pos w)))) (advance w)"
  have "\<not> throttle_active (seen (e (pos ?w1 + k)))" using Suc.prems by simp
  from Suc.IH [OF this] obtain r w' where "wait_loop fl timeout st e ?w1 = Some (r, w')" by blast
  then show ?case by (subst wait_loop.simps) auto
qed

lemma wait_loop_clears:
  assumes "\<not> throttle_active (seen (e (pos w + k)))"
    and "\<forall>j<k. \<not> timed_out fl timeout st (clock (e (pos w + j)))"
  shows "\<exists>w'. wait_loop fl timeout st e w = Some (True, w')"
  using assms
proof (induction k arbitrary: w)
  case 0
  then show ?case by (subst wait_loop.simps) simp
next
  case (Suc k)
  let ?w1 = "sleep (sleep_time fl (seen (e (pos w)))) (advance w)"
  have a: "\<not> throttle_active (seen (e (pos ?w1 + k)))" using Suc.prems(1) by simp
  have b: "\<forall>j<k. \<not> timed_out fl timeout st (clock (e (pos ?w1 + j)))"
  proof (intro allI impI)
    fix j assume "j < k"
    then have "Suc j < Suc k" by simp
    with Suc.prems(2) have "\<not> timed_out fl timeout st (clock (e (pos w + Suc j)))" by blast
    then show "\<not> timed_out fl timeout st (clock (e (pos ?w1 + j)))" by simp
  qed
  from Suc.IH [OF a b] obtain w' where w': "wait_loop fl timeout st e ?w1 = Some (True, w')" by blast
  have c: "\<not> timed_out fl timeout st (clock (e (pos w)))" using Suc.prems(2) by force
  from w' c show ?case by (subst wait_loop.simps) simp
qed

lemma wait_loop_times_out:
  assumes "\<forall>j\<le>k. throttle_active (seen (e (pos w + j)))"
    and "timed_out fl timeout st (clock (e (pos w + k)))"
  shows "\<exists>w'. wait_loop fl timeout st e w = Some (False, w')"
  using assms
proof (induction k arbitrary: w)
  case 0
  then show ?case by (subst wait_loop.simps) simp
next
  case (Suc k)
  let ?w1 = "sleep (sleep_time fl (seen (e (pos w)))) (advance w)"
  have thr: "throttle_active (seen (e (pos w)))" using Suc.prems(1) by force
  have a: "\<forall>j\<le>k. throttle_active (seen (e (pos ?w1 + j)))"
  proof (intro allI impI)
    fix j assume "j \<le> k"
    then have "Suc j \<le> Suc k" by simp
    with Suc.prems(1) have "throttle_active (seen (e (pos w + Suc j)))" by blast
    then show "throttle_active (seen (e (pos ?w1 + j)))" by simp
  qed
  have b: "timed_out fl timeout st (clock (e (pos ?w1 + k)))" using Suc.prems(2) by simp
  from Suc.IH [OF a b] obtain w' where w': "wait_loop fl timeout st e ?w1 = Some (False, w')" by blast
  with thr show ?case by (subst wait_loop.simps) auto
qed

text \<open>The sleeps of a run that returns.\<close>

lemma wait_loop_slept:
  assumes "wait_loop fl timeout st e w = Some y"
  shows "pos w < pos (snd y) \<and>
         slept (snd y) = slept w @ map (\<lambda>k. sleep_time fl (seen (e k))) [pos w..<pos (snd y) - 1] \<and>
         (\<forall>k\<in>{pos w..<pos (snd y) - 1}. throttle_active (seen (e k)))"
  using assms
proof (induction rule: wait_loop.raw_induct[rotated 1, consumes 1])
  case (1 wl fl timeout st e w y)
  show ?case
  proof (cases "throttle_active (seen (e (pos w))) \<and> \<not> timed_out fl timeout st (clock (e (pos w)))")
    case True
    let ?w1 = "sleep (sleep_time fl (seen (e (pos w)))) (advance w)"
    from "1.hyps" True have "wl fl timeout st e ?w1 = Some y" by simp
    from "1.IH" [OF this]
    have ih: "pos ?w1 < pos (snd y)"
      "slept (snd y) = slept ?w1 @ map (\<lambda>k. sleep_time fl (seen (e k))) [pos ?w1..<pos (snd y) - 1]"
      "\<forall>k\<in>{pos ?w1..<pos (snd y) - 1}. throttle_active (seen (e k))"
      by blast+
    from ih(1) have lt: "pos w < pos (snd y) - 1" by simp
    have "[pos w..<pos (snd y) - 1] = pos w # [Suc (pos w)..<pos (snd y) - 1]"
      using lt by (simp add: upt_rec)
    with ih(2) have "slept (snd y) = slept w @ map (\<lambda>k. sleep_time fl (seen (e k))) [pos w..<pos (snd y) - 1]"
      by simp
    moreover have "\<forall>k\<in>{pos w..<pos (snd y) - 1}. throttle_active (seen (e k))"
    proof
      fix k assume "k \<in> {pos w..<pos (snd y) - 1}"
      then have "k = pos w \<or> k \<in> {pos ?w1..<pos (snd y) - 1}" by auto
      with True ih(3) show "throttle_active (seen (e k))" by blast
    qed
    ultimately show ?thesis using lt by simp
  next
    case False
    with "1.hyps" have "y = (False, advance w) \<or> y = (True, advance w)"
      by (auto split: if_splits)
    then show ?thesis by auto
  qed
qed

subsection \<open>Batches\<close>

lemma wait_for_cpu_None_returns:
  assumes "eventually_clear e"
  shows "\<exists>w'. wait_for_cpu fl None e w = Some (True, w')"
proof -
  from assms obtain k where "\<not> throttle_active (seen (e (pos (advance w) + k)))"
    unfolding eventually_clear_def by blast
  moreover
  have "\<forall>j<k. \<not> timed_out fl None (clock (e (pos w))) (clock (e (pos (advance w) + j)))"
    by (simp add: timed_out_def)
  ultimately show ?thesis unfolding wait_for_cpu_def by (rule wait_loop_clears)
qed

lemma callables_append: "callables (xs @ ys) = callables xs @ callables ys"
  by (induction xs rule: callables.induct) simp_all

lemma results_in_order_append:
  "results_in_order (fs @ gs) =
     (case results_in_order fs of
        Inl x \<Rightarrow> Inl x
      | Inr vs \<Rightarrow> (case results_in_order gs of Inl x \<Rightarrow> Inl x | Inr us \<Rightarrow> Inr (vs @ us)))"
  by (induction fs) (simp_all split: sum.splits)

lemma outcome_simps [simp]:
  "outcome (Inl x) = Inl x"
  "outcome (Inr (rs, w)) = Inr rs"
  by (simp_all add: outcome_def)

lemma execute_batch_outcome:
  "outcome (execute_batch fl e batch (rs, w)) =
     (case results_in_order (callables batch) of
        Inl x \<Rightarrow> Inl x
      | Inr vs \<Rightarrow> Inr (rs @ vs))"
proof (induction batch arbitrary: rs w)
  case Nil
  then show ?case by simp
next
  case (Cons task batch)
  show ?case
  proof (cases task)
    case NotCallable
    with Cons.IH show ?thesis by simp
  next
    case (Callable f)
    show ?thesis
    proof (cases "f ()")
      case (Inl x)
      with Callable show ?thesis by simp
    next
      case (Inr v)
      with Callable Cons.IH [of "rs @ [v]" "adaptive_sleep fl float_0_2 e w"]
      show ?thesis by (simp split: sum.splits)
    qed
  qed
qed

lemma execute_batches_outcome:
  assumes "execute_batches fl e tasks b is (rs, w) = Some r"
  shows "outcome r =
     (case results_in_order (callables (concat (map (\<lambda>i. take b (drop i tasks)) is))) of
        Inl x \<Rightarrow> Inl x
      | Inr vs \<Rightarrow> Inr (rs @ vs))"
  using assms
proof (induction "is" arbitrary: rs w)
  case Nil
  then show ?case by auto
next
  case (Cons i "is")
  from Cons.prems obtain b1 w1 where w1: "wait_for_cpu fl None e w = Some (b1, w1)"
    by (auto split: option.splits)
  let ?batch = "take b (drop i tasks)"
  show ?case
  proof (cases "execute_batch fl e ?batch (rs, w1)")
    case (Inl x)
    with Cons.prems w1 have "r = Inl x" by simp
    moreover from execute_batch_outcome [of fl e ?batch rs w1] Inl
    have "results_in_order (callables ?batch) = Inl x" by (simp split: sum.splits)
    ultimately show ?thesis by (simp add: callables_append results_in_order_append)
  next
    case (Inr p)
    obtain rs1 w2 where p: "p = (rs1, w2)" by (cases p)
    from execute_batch_outcome [of fl e ?batch rs w1] Inr p
    obtain vs where vs: "results_in_order (callables ?batch) = Inr vs" "rs1 = rs @ vs"
      by (auto split: sum.splits)
    from Cons.prems w1 Inr p
    have "execute_batches fl e tasks b is (rs1, adaptive_sleep fl 1 e w2) = Some r" by simp
    from Cons.IH [OF this] vs show ?thesis
      by (simp add: callables_append results_in_order_append split: sum.splits)
  qed
qed

lemma execute_batches_returns:
  assumes "eventually_clear e"
  shows "\<exists>r. execute_batches fl e tasks b is (rs, w) = Some r"
proof (induction "is" arbitrary: rs w)
  case Nil
  show ?case by simp
next
  case (Cons i "is")
  from wait_for_cpu_None_returns [OF assms, of fl w]
  obtain w1 where w1: "wait_for_cpu fl None e w = Some (True, w1)" by blast
  show ?case
  proof (cases "execute_batch fl e (take b (drop i tasks)) (rs, w1)")
    case (Inl x)
    with w1 show ?thesis by simp
  next
    case (Inr p)
    obtain rs1 w2 where p: "p = (rs1, w2)" by (cases p)
    from Cons.IH [of rs1 "adaptive_sleep fl 1 e w2"] w1 Inr p show ?thesis by simp
  qed
qed

lemma concat_chunks:
  "0 < k \<Longrightarrow> concat (map (\<lambda>i. take k (drop i xs)) (map (\<lambda>j. j * k) [0..<m])) = take (m * k) xs"
proof (induction m)
  case 0
  then show ?case by simp
next
  case (Suc m)
  have "take (m * k) xs @ take k (drop (m * k) xs) = take (m * k + k) xs"
    by (simp add: take_add)
  with Suc show ?case by (simp add: add.commute)
qed

lemma batches_cover:
  assumes "0 < step"
  shows "concat (map (\<lambda>i. take (nat step) (drop i tasks)) (range_from_0 (length tasks) step)) = tasks"
proof -
  let ?k = "nat step"
  let ?m = "(length tasks + ?k - 1) div ?k"
  have k: "0 < ?k" using assms by simp
  have "length tasks \<le> ?m * ?k"
  proof -
    have "(length tasks + ?k - 1) mod ?k < ?k" using k by simp
    moreover have "?m * ?k + (length tasks + ?k - 1) mod ?k = length tasks + ?k - 1"
      by simp
    ultimately show ?thesis by linarith
  qed
  then have "take (?m * ?k) tasks = tasks" by simp
  with concat_chunks [OF k, of tasks ?m] assms show ?thesis
    by (simp add: range_from_0_def)
qed

lemma throttled_batch_execute_outcome:
  assumes "throttled_batch_execute fl t tasks batch_size e w = Some r"
    and "0 < (case batch_size of None \<Rightarrow> max_concurrent t | Some b \<Rightarrow> b)"
  shows "outcome r = results_in_order (callables tasks)"
proof -
  let ?b = "case batch_size of None \<Rightarrow> max_concurrent t | Some b \<Rightarrow> b"
  from assms have "execute_batches fl e tasks (nat ?b) (range_from_0 (length tasks) ?b) ([], w) = Some r"
    by (simp add: throttled_batch_execute_def Let_def)
  from execute_batches_outcome [OF this] batches_cover [OF assms(2), of tasks]
  show ?thesis by (simp split: sum.splits)
qed

lemma throttled_batch_execute_returns:
  assumes "eventually_clear e"
  shows "\<exists>r. throttled_batch_execute fl t tasks batch_size e w = Some r"
  unfolding throttled_batch_execute_def Let_def
  using execute_batches_returns [OF assms] by auto

lemma callables_map_Callable: "callables (map Callable fs) = fs"
  by (induction fs) simp_all

lemma length_callables: "length (callables ts) = length (filter callable ts)"
  by (induction ts rule: callables.induct) simp_all

lemma results_in_order_length: "results_in_order fs = Inr vs \<Longrightarrow> length vs = length fs"
  by (induction fs arbitrary: vs) (auto split: sum.splits)

text \<open>What the reference gives when every function returns, and when one raises.\<close>

lemma results_in_order_all_return: "results_in_order (map (\<lambda>v _. Inr v) vs) = Inr vs"
  by (induction vs) simp_all

lemma results_in_order_first_raise:
  "results_in_order (map (\<lambda>v _. Inr v) vs @ (\<lambda>_. Inl x) # gs) = Inl (TaskRaised x)"
  by (induction vs) simp_all

subsection \<open>The example environments and the bracketing methods\<close>

lemma exact_arith_simps [simp]:
  "fl_sub exact_arith a b = a - b"
  "fl_mul exact_arith a b = a * b"
  by (simp_all add: exact_arith_def)

lemma float_35_6_minus_float_15_6: "float_35_6 - float_15_6 = 20 + 1 / 2 ^ 49"
  by (simp add: float_35_6_def float_15_6_def)

lemma round_half_even_tie: "round_half_even (11258999068426241 / 2) = 5629499534213120"
proof -
  have "\<lfloor>11258999068426241 / 2 :: real\<rfloor> = 5629499534213120" by simp
  then show ?thesis unfolding round_half_even_def Let_def by simp
qed

lemma fl_sub_arith_16_32_rounds: "fl_sub arith_16_32 float_35_6 float_15_6 = 20"
proof -
  have d: "(float_35_6 - float_15_6) / (1 / 2 ^ 48) = 11258999068426241 / 2"
    by (simp add: float_35_6_def float_15_6_def)
  have "fl_sub arith_16_32 float_35_6 float_15_6 =
      of_int (round_half_even ((float_35_6 - float_15_6) / (1 / 2 ^ 48))) * (1 / 2 ^ 48)"
    unfolding arith_16_32_def nearest_multiple_def by simp
  also have "\<dots> = of_int 5629499534213120 * (1 / 2 ^ 48)"
    unfolding d round_half_even_tie ..
  also have "\<dots> = 20" by simp
  finally show ?thesis .
qed

lemma fl_sub_arith_16_32_exact: "fl_sub arith_16_32 85 60 = 25"
  by (simp add: arith_16_32_def nearest_multiple_def round_half_even_def Let_def)

lemma manager_at_fields:
  "max_cpu_percent (manager_at c v) = c"
  "current_cpu_usage (manager_at c v) = v"
  "throttle_active (manager_at c v) = (v \<ge> c)"
  by (simp_all add: manager_at_def monitor_iteration_fields init_CPUManager_def)

lemma env_overloaded_throttled: "throttle_active (seen (env_overloaded k))"
  by (simp add: env_overloaded_def manager_at_fields)

lemma env_idle_clear: "\<not> throttle_active (seen (env_idle k))"
  by (simp add: env_idle_def manager_at_fields)

lemma eventually_clear_env_idle: "eventually_clear env_idle"
  by (simp add: eventually_clear_def env_idle_clear)

lemma wait_for_cpu_env_idle:
  "wait_for_cpu fl timeout env_idle w = Some (True, advance (advance w))"
  unfolding wait_for_cpu_def by (subst wait_loop.simps) (simp add: env_idle_clear)

lemma max_concurrent_start_process:
  "start_process fl t e w = Some (t', w') \<Longrightarrow> max_concurrent t' = max_concurrent t"
  by (auto simp: start_process_def split: option.splits)

lemma max_concurrent_end_process: "max_concurrent (end_process t) = max_concurrent t"
  by (simp add: end_process_def)

lemma max_concurrent_run_calls:
  "run_calls fl t cs e w = Some (t', w') \<Longrightarrow> max_concurrent t' = max_concurrent t"
proof (induction fl t cs e w rule: run_calls.induct)
  case (1 fl t e w)
  then show ?case by simp
next
  case (2 fl t cs e w)
  then show ?case
    by (auto split: option.splits dest: max_concurrent_start_process)
next
  case (3 fl t cs e w)
  then show ?case by (simp add: max_concurrent_end_process)
qed

lemma process_count_start_process:
  "start_process fl t e w = Some (t', w') \<Longrightarrow> process_count t' = process_count t + 1"
  by (auto simp: start_process_def split: option.splits)

lemma process_count_end_process: "0 \<le> process_count (end_process t)"
  by (simp add: end_process_def)

lemma start_process_env_idle:
  "start_process fl t env_idle w =
     Some (t\<lparr>process_count := process_count t + 1\<rparr>, advance (advance w))"
  by (simp add: start_process_def wait_for_cpu_env_idle)

subsection \<open>What a call of the manager can give\<close>

lemma wait_for_cpu_times_out:
  assumes "t \<noteq> 0"
    and "\<forall>j\<le>k. throttle_active (seen (e (Suc (pos w) + j)))"
    and "fl_sub fl (clock (e (Suc (pos w) + k))) (clock (e (pos w))) \<ge> t"
  shows "\<exists>w'. wait_for_cpu fl (Some t) e w = Some (False, w')"
proof -
  have "\<forall>j\<le>k. throttle_active (seen (e (pos (advance w) + j)))"
    using assms(2) by simp
  moreover have "timed_out fl (Some t) (clock (e (pos w))) (clock (e (pos (advance w) + k)))"
    using assms(1,3) by (simp add: timed_out_def)
  ultimately show ?thesis unfolding wait_for_cpu_def by (rule wait_loop_times_out)
qed

lemma wait_for_cpu_clears:
  assumes "\<not> throttle_active (seen (e (Suc (pos w) + k)))"
    and "\<forall>j<k. \<not> timed_out fl timeout (clock (e (pos w))) (clock (e (Suc (pos w) + j)))"
  shows "\<exists>w'. wait_for_cpu fl timeout e w = Some (True, w')"
proof -
  have "\<not> throttle_active (seen (e (pos (advance w) + k)))"
    using assms(1) by simp
  moreover
  have "\<forall>j<k. \<not> timed_out fl timeout (clock (e (pos w))) (clock (e (pos (advance w) + j)))"
    using assms(2) by simp
  ultimately show ?thesis unfolding wait_for_cpu_def by (rule wait_loop_clears)
qed

lemma throttled_execute_cases:
  "throttled_execute fl func e w = None \<or>
   (\<exists>w1. throttled_execute fl func e w =
      Some (case func () of Inl x \<Rightarrow> Inl x | Inr result \<Rightarrow> Inr (result, w1)))"
  by (auto simp: throttled_execute_def split: option.splits sum.splits)

section \<open>The claims\<close>

text \<open>
  C1. After every sample that the background loop stores, the throttle flag says
  whether the stored usage is at or above the ceiling: true for a sample at or above
  \<open>max_cpu_percent\<close>, false for a sample strictly below it. The state after the last
  sample of a run is the state right after that sample; every sample is the last one
  of the run up to it.
\<close>

theorem throttle_flag_after_each_sample:
  assumes "monitoring s"
  shows "current_cpu_usage (snd (monitor_cpu s (map Sampled (vs @ [v])))) = v \<and>
         throttle_active (snd (monitor_cpu s (map Sampled (vs @ [v])))) =
           (current_cpu_usage (snd (monitor_cpu s (map Sampled (vs @ [v]))))
              \<ge> max_cpu_percent (snd (monitor_cpu s (map Sampled (vs @ [v]))))) \<and>
         throttle_active (snd (monitor_cpu s (map Sampled (vs @ [v])))) = (v \<ge> max_cpu_percent s)"
proof -
  let ?s1 = "snd (monitor_cpu s (map Sampled vs))"
  from monitor_cpu_samples [OF assms, of vs]
  have s1: "monitoring ?s1" "max_cpu_percent ?s1 = max_cpu_percent s" by simp_all
  have "monitor_cpu s (map Sampled (vs @ [v])) = monitor_cpu ?s1 [Sampled v]"
    using monitor_cpu_append [OF assms, of vs "[Sampled v]"] by simp
  also have "\<dots> = (Running, monitor_iteration ?s1 v)"
    using s1(1) by (simp add: monitor_iteration_fields)
  finally have "snd (monitor_cpu s (map Sampled (vs @ [v]))) = monitor_iteration ?s1 v"
    by simp
  then show ?thesis by (simp add: monitor_iteration_fields s1(2))
qed

theorem throttle_flag_after_each_sample_witness:
  "monitoring (start_monitoring (init_CPUManager 80 1)) \<and>
   throttle_active
     (snd (monitor_cpu (start_monitoring (init_CPUManager 80 1)) (map Sampled ([50] @ [85])))) \<and>
   \<not> throttle_active
     (snd (monitor_cpu (start_monitoring (init_CPUManager 80 1)) (map Sampled ([50, 85, 85] @ [60]))))"
proof -
  have m: "monitoring (start_monitoring (init_CPUManager 80 1))"
    by (simp add: start_monitoring_def init_CPUManager_def)
  have c: "max_cpu_percent (start_monitoring (init_CPUManager 80 1)) = 80"
    by (simp add: start_monitoring_def init_CPUManager_def)
  have a: "throttle_active
      (snd (monitor_cpu (start_monitoring (init_CPUManager 80 1)) (map Sampled ([50] @ [85])))) =
      (85 \<ge> max_cpu_percent (start_monitoring (init_CPUManager 80 1)))"
    using throttle_flag_after_each_sample [OF m, of "[50]" 85] by blast
  have b: "throttle_active
      (snd (monitor_cpu (start_monitoring (init_CPUManager 80 1)) (map Sampled ([50, 85, 85] @ [60])))) =
      (60 \<ge> max_cpu_percent (start_monitoring (init_CPUManager 80 1)))"
    using throttle_flag_after_each_sample [OF m, of "[50, 85, 85]" 60] by blast
  from a have a': "throttle_active
      (snd (monitor_cpu (start_monitoring (init_CPUManager 80 1)) (map Sampled ([50] @ [85]))))"
    unfolding c by simp
  from b have b': "\<not> throttle_active
      (snd (monitor_cpu (start_monitoring (init_CPUManager 80 1)) (map Sampled ([50, 85, 85] @ [60]))))"
    unfolding c by simp
  from m a' b' show ?thesis by blast
qed

text \<open>
  C2, at the input where the code departs from it. With the sampler at 95 percent for
  good and a clock that advances by one second per reading, a call with the timeout 0
  never returns, although its deadline has passed at once; the same call with the
  timeout one half returns false at the first test of the flag, a second after its
  start.
\<close>

theorem wait_for_cpu_timeout_zero_never_returns:
  "(\<forall>fl. wait_for_cpu fl (Some 0) env_overloaded world0 = None) \<and>
   wait_for_cpu exact_arith (Some (1 / 2)) env_overloaded world0 =
     Some (False, \<lparr>pos = 2, slept = []\<rparr>)"
proof -
  have "wait_for_cpu fl (Some 0) env_overloaded world0 = None" for fl
  proof (cases "wait_for_cpu fl (Some 0) env_overloaded world0")
    case None
    then show ?thesis .
  next
    case (Some y)
    then have "wait_loop fl (Some 0) (clock (env_overloaded (pos world0))) env_overloaded
        (advance world0) = Some y"
      by (simp add: wait_for_cpu_def)
    from wait_loop_blocks [OF this] have False
      by (simp add: env_overloaded_throttled falsy_def)
    then show ?thesis ..
  qed
  moreover
  have "wait_for_cpu exact_arith (Some (1 / 2)) env_overloaded world0 =
      Some (False, \<lparr>pos = 2, slept = []\<rparr>)"
    unfolding wait_for_cpu_def
    apply (subst wait_loop.simps)
    apply (simp add: env_overloaded_def manager_at_fields world0_def timed_out_def
        sleep_time_def advance_def sleep_def)
    done
  ultimately show ?thesis by blast
qed

text \<open>
  C3, as the code has it. When the sampling primitive raises in an iteration of the
  background loop, nothing catches the exception: the loop ends there by the
  exception, the outcomes after it are never sampled, and the manager stays as the
  last stored sample left it, so \<open>current_cpu_usage\<close> and \<open>throttle_active\<close> keep
  their last values. The exception stays in the loop's thread: \<open>wait_for_cpu\<close> gives a
  boolean or does not return, and \<open>throttled_execute\<close> raises only what its function
  raises.
\<close>

theorem sampling_failure_ends_loop:
  assumes "monitoring s"
  shows "monitor_cpu s (map Sampled vs @ SamplingFailure # rest) =
           (Raised, snd (monitor_cpu s (map Sampled vs))) \<and>
         (throttled_execute fl func e w = None \<or>
          (\<exists>w1. throttled_execute fl func e w =
             Some (case func () of Inl x \<Rightarrow> Inl x | Inr result \<Rightarrow> Inr (result, w1))))"
proof -
  let ?s1 = "snd (monitor_cpu s (map Sampled vs))"
  from monitor_cpu_samples [OF assms, of vs] have "monitoring ?s1" by simp
  then have "monitor_cpu ?s1 (SamplingFailure # rest) = (Raised, ?s1)" by simp
  with monitor_cpu_append [OF assms, of vs "SamplingFailure # rest"]
  have "monitor_cpu s (map Sampled vs @ SamplingFailure # rest) = (Raised, ?s1)" by simp
  with throttled_execute_cases [of fl func e w] show ?thesis by blast
qed

theorem sampling_failure_ends_loop_witness:
  "monitoring (start_monitoring (init_CPUManager 80 1)) \<and>
   monitor_cpu (start_monitoring (init_CPUManager 80 1))
     (map Sampled [85] @ SamplingFailure # [Sampled 50]) =
   (Raised, \<lparr>max_cpu_percent = 80, check_interval = 1, monitoring = True,
             current_cpu_usage = 85, throttle_active = True\<rparr>)"
proof -
  have m: "monitoring (start_monitoring (init_CPUManager 80 1))"
    by (simp add: start_monitoring_def init_CPUManager_def)
  have "monitor_cpu (start_monitoring (init_CPUManager 80 1))
      (map Sampled [85] @ SamplingFailure # [Sampled 50]) =
    (Raised, snd (monitor_cpu (start_monitoring (init_CPUManager 80 1)) (map Sampled [85])))"
    using sampling_failure_ends_loop [OF m, of "[85]" "[Sampled 50]"] by blast
  with m show ?thesis
    by (simp add: start_monitoring_def init_CPUManager_def monitor_iteration_def)
qed

text \<open>
  C3, as the claim states it, fails: with the ceiling 80 and the sampler giving 85,
  then raising, then giving 50, the loop has ended by the exception, the third outcome
  is never stored, and the flag stays set although the load has dropped.
\<close>

theorem sampling_failure_counterexample:
  "fst (monitor_cpu (start_monitoring (init_CPUManager 80 1))
          [Sampled 85, SamplingFailure, Sampled 50]) = Raised \<and>
   current_cpu_usage (snd (monitor_cpu (start_monitoring (init_CPUManager 80 1))
          [Sampled 85, SamplingFailure, Sampled 50])) = 85 \<and>
   throttle_active (snd (monitor_cpu (start_monitoring (init_CPUManager 80 1))
          [Sampled 85, SamplingFailure, Sampled 50])) \<and>
   monitor_cpu (start_monitoring (init_CPUManager 80 1))
          [Sampled 85, SamplingFailure, Sampled 50] \<noteq>
   monitor_cpu (start_monitoring (init_CPUManager 80 1)) [Sampled 85, Sampled 50]"
  by (simp add: start_monitoring_def init_CPUManager_def monitor_iteration_def)

text \<open>
  C4. The sleep of an iteration is decided by the excess of that iteration, the float
  that \<^verbatim>\<open>self.current_cpu_usage - self.max_cpu_percent\<close> gives for the usage and the
  ceiling it reads: 2 seconds for an excess above 20, 1 second for an excess above 10
  and up to 20, half a second otherwise; so 2, 1 and one half for the excesses 25, 15
  and 5. This holds for every float arithmetic. The sleeps of a call that returns are
  these values, one for each reading of its loop but the last.
\<close>

theorem sleep_time_by_excess:
  "(fl_sub fl (current_cpu_usage m) (max_cpu_percent m) > 20 \<longrightarrow> sleep_time fl m = 2) \<and>
   (fl_sub fl (current_cpu_usage m) (max_cpu_percent m) > 10 \<and>
      fl_sub fl (current_cpu_usage m) (max_cpu_percent m) \<le> 20 \<longrightarrow> sleep_time fl m = 1) \<and>
   (fl_sub fl (current_cpu_usage m) (max_cpu_percent m) \<le> 10 \<longrightarrow> sleep_time fl m = 1 / 2) \<and>
   (fl_sub fl (current_cpu_usage m) (max_cpu_percent m) = 25 \<longrightarrow> sleep_time fl m = 2) \<and>
   (fl_sub fl (current_cpu_usage m) (max_cpu_percent m) = 15 \<longrightarrow> sleep_time fl m = 1) \<and>
   (fl_sub fl (current_cpu_usage m) (max_cpu_percent m) = 5 \<longrightarrow> sleep_time fl m = 1 / 2) \<and>
   (wait_for_cpu fl timeout e w = Some (r, w') \<longrightarrow>
      slept w' = slept w @ map (\<lambda>k. sleep_time fl (seen (e k))) [Suc (pos w)..<pos w' - 1])"
proof -
  have "wait_for_cpu fl timeout e w = Some (r, w') \<longrightarrow>
      slept w' = slept w @ map (\<lambda>k. sleep_time fl (seen (e k))) [Suc (pos w)..<pos w' - 1]"
  proof
    assume "wait_for_cpu fl timeout e w = Some (r, w')"
    then have "wait_loop fl timeout (clock (e (pos w))) e (advance w) = Some (r, w')"
      by (simp add: wait_for_cpu_def)
    from wait_loop_slept [OF this] show
      "slept w' = slept w @ map (\<lambda>k. sleep_time fl (seen (e k))) [Suc (pos w)..<pos w' - 1]"
      by simp
  qed
  then show ?thesis by (simp add: sleep_time_def Let_def)
qed

theorem sleep_time_by_excess_witness:
  "sleep_time exact_arith (manager_at 60 85) = 2 \<and>
   sleep_time exact_arith (manager_at 60 75) = 1 \<and>
   sleep_time exact_arith (manager_at 60 65) = 1 / 2 \<and>
   sleep_time exact_arith (manager_at 80 100) = 1 \<and>
   sleep_time exact_arith (manager_at 80 90) = 1 / 2 \<and>
   sleep_time arith_16_32 (manager_at 60 85) = 2 \<and>
   20 < float_35_6 - float_15_6 \<and>
   sleep_time arith_16_32 (manager_at float_15_6 float_35_6) = 1 \<and>
   wait_for_cpu exact_arith (Some 5) env_cooling world0 =
     Some (True, \<lparr>pos = 4, slept = [1 / 2, 1 / 2]\<rparr>)"
proof -
  have run: "wait_for_cpu exact_arith (Some 5) env_cooling world0 =
      Some (True, \<lparr>pos = 4, slept = [1 / 2, 1 / 2]\<rparr>)"
    unfolding wait_for_cpu_def
    apply (subst wait_loop.simps)
    apply (subst wait_loop.simps)
    apply (subst wait_loop.simps)
    apply (simp add: env_cooling_def manager_at_fields world0_def timed_out_def
        sleep_time_def advance_def sleep_def)
    done
  have "sleep_time exact_arith (manager_at 60 85) = 2"
    using sleep_time_by_excess [of exact_arith "manager_at 60 85"]
    by (simp add: manager_at_fields)
  moreover have "sleep_time exact_arith (manager_at 60 75) = 1"
    using sleep_time_by_excess [of exact_arith "manager_at 60 75"]
    by (simp add: manager_at_fields)
  moreover have "sleep_time exact_arith (manager_at 60 65) = 1 / 2"
    using sleep_time_by_excess [of exact_arith "manager_at 60 65"]
    by (simp add: manager_at_fields)
  moreover have "sleep_time exact_arith (manager_at 80 100) = 1"
    using sleep_time_by_excess [of exact_arith "manager_at 80 100"]
    by (simp add: manager_at_fields)
  moreover have "sleep_time exact_arith (manager_at 80 90) = 1 / 2"
    using sleep_time_by_excess [of exact_arith "manager_at 80 90"]
    by (simp add: manager_at_fields)
  moreover have "sleep_time arith_16_32 (manager_at 60 85) = 2"
    using sleep_time_by_excess [of arith_16_32 "manager_at 60 85"]
    by (simp add: manager_at_fields fl_sub_arith_16_32_exact)
  moreover have "20 < float_35_6 - float_15_6"
    by (simp add: float_35_6_minus_float_15_6)
  moreover have "sleep_time arith_16_32 (manager_at float_15_6 float_35_6) = 1"
    using sleep_time_by_excess [of arith_16_32 "manager_at float_15_6 float_35_6"]
    by (simp add: manager_at_fields fl_sub_arith_16_32_rounds)
  ultimately show ?thesis using run by blast
qed

text \<open>
  C5. For a list of callable tasks, a positive batch size (the default is the budget
  \<open>max_concurrent\<close>) and whatever the environment: if the call comes back, it comes
  back as calling the tasks in the order of the list does, with the list of all the
  values in that order, or with the exception of the first task that raises, and then
  with no list at all. It does come back when the throttle flag clears again and again.
\<close>

theorem batch_results_in_order:
  assumes "0 < (case batch_size of None \<Rightarrow> max_concurrent t | Some b \<Rightarrow> b)"
  shows "(\<forall>r. throttled_batch_execute fl t (map Callable fs) batch_size e w = Some r \<longrightarrow>
            outcome r = results_in_order fs) \<and>
         (eventually_clear e \<longrightarrow>
            (\<exists>r. throttled_batch_execute fl t (map Callable fs) batch_size e w = Some r \<and>
                 outcome r = results_in_order fs))"
proof -
  have partial: "outcome r = results_in_order fs"
    if "throttled_batch_execute fl t (map Callable fs) batch_size e w = Some r" for r
    using throttled_batch_execute_outcome [OF that assms] by (simp add: callables_map_Callable)
  moreover have "\<exists>r. throttled_batch_execute fl t (map Callable fs) batch_size e w = Some r \<and>
      outcome r = results_in_order fs" if "eventually_clear e"
  proof -
    from throttled_batch_execute_returns [OF that, of fl t "map Callable fs" batch_size w]
    obtain r where "throttled_batch_execute fl t (map Callable fs) batch_size e w = Some r" by blast
    with partial show ?thesis by blast
  qed
  ultimately show ?thesis by blast
qed

theorem batch_results_in_order_witness:
  "0 < (case None of None \<Rightarrow> max_concurrent \<lparr>process_count = 0, max_concurrent = 2\<rparr> | Some b \<Rightarrow> b) \<and>
   eventually_clear env_idle \<and>
   (\<exists>r. throttled_batch_execute exact_arith \<lparr>process_count = 0, max_concurrent = 2\<rparr>
          (map Callable [\<lambda>_. Inr 10, \<lambda>_. Inr 20, \<lambda>_. Inr (30 :: int)] :: (string, int) task list)
          None env_idle world0 = Some r \<and>
        outcome r = Inr [10, 20, 30]) \<and>
   (\<exists>r. throttled_batch_execute exact_arith \<lparr>process_count = 0, max_concurrent = 2\<rparr>
          (map Callable [\<lambda>_. Inr (10 :: int), \<lambda>_. Inl ''boom'', \<lambda>_. Inl ''later''])
          None env_idle world0 = Some r \<and>
        outcome r = Inl (TaskRaised ''boom''))"
proof -
  have b: "0 < (case None of None \<Rightarrow> max_concurrent \<lparr>process_count = 0, max_concurrent = 2\<rparr>
      | Some b \<Rightarrow> b)"
    by simp
  have "\<exists>r. throttled_batch_execute exact_arith \<lparr>process_count = 0, max_concurrent = 2\<rparr>
          (map Callable [\<lambda>_. Inr 10, \<lambda>_. Inr 20, \<lambda>_. Inr (30 :: int)] :: (string, int) task list)
          None env_idle world0 = Some r \<and>
        outcome r = results_in_order [\<lambda>_. Inr 10, \<lambda>_. Inr 20, \<lambda>_. Inr (30 :: int)]"
    using batch_results_in_order [OF b] eventually_clear_env_idle by blast
  moreover
  have "\<exists>r. throttled_batch_execute exact_arith \<lparr>process_count = 0, max_concurrent = 2\<rparr>
          (map Callable [\<lambda>_. Inr (10 :: int), \<lambda>_. Inl ''boom'', \<lambda>_. Inl ''later''])
          None env_idle world0 = Some r \<and>
        outcome r = results_in_order [\<lambda>_. Inr (10 :: int), \<lambda>_. Inl ''boom'', \<lambda>_. Inl ''later'']"
    using batch_results_in_order [OF b] eventually_clear_env_idle by blast
  ultimately show ?thesis using eventually_clear_env_idle by simp
qed

text \<open>
  C6. The budget is \<open>max 1 (n div 2)\<close> for the core count \<open>n\<close>, with the halving of
  the integers; the constructor stores it, and neither bracketing method changes it.
  Four cores give 2, one core gives 1.
\<close>

theorem max_concurrent_is_half_the_cores:
  "(calculate_max_concurrent (Some n) :: unit error + int) = Inr (max 1 (n div 2)) \<and>
   (init_ProcessThrottler (Some n) :: unit error + ProcessThrottler) =
     Inr \<lparr>process_count = 0, max_concurrent = max 1 (n div 2)\<rparr> \<and>
   (calculate_max_concurrent (Some 4) :: unit error + int) = Inr 2 \<and>
   (calculate_max_concurrent (Some 1) :: unit error + int) = Inr 1 \<and>
   max_concurrent (end_process t) = max_concurrent t \<and>
   (run_calls fl t cs e w = Some (t', w') \<longrightarrow> max_concurrent t' = max_concurrent t)"
  using max_concurrent_run_calls [of fl t cs e w t' w']
  by (simp add: calculate_max_concurrent_def init_ProcessThrottler_def max_concurrent_end_process)

theorem max_concurrent_is_half_the_cores_witness:
  "(init_ProcessThrottler (Some 4) :: unit error + ProcessThrottler) =
     Inr \<lparr>process_count = 0, max_concurrent = 2\<rparr> \<and>
   run_calls exact_arith \<lparr>process_count = 0, max_concurrent = 2\<rparr> [Begin, Begin, End] env_idle world0 =
     Some (\<lparr>process_count = 1, max_concurrent = 2\<rparr>, \<lparr>pos = 4, slept = []\<rparr>) \<and>
   max_concurrent \<lparr>process_count = 1, max_concurrent = 2\<rparr> =
     max_concurrent \<lparr>process_count = 0, max_concurrent = 2\<rparr>"
proof -
  have run: "run_calls exact_arith \<lparr>process_count = 0, max_concurrent = 2\<rparr> [Begin, Begin, End] env_idle world0 =
     Some (\<lparr>process_count = 1, max_concurrent = 2\<rparr>, \<lparr>pos = 4, slept = []\<rparr>)"
    by (simp add: start_process_env_idle end_process_def advance_def world0_def)
  from max_concurrent_is_half_the_cores [of 4 "\<lparr>process_count = 0, max_concurrent = 2\<rparr>"
      exact_arith "[Begin, Begin, End]" env_idle world0 "\<lparr>process_count = 1, max_concurrent = 2\<rparr>"
      "\<lparr>pos = 4, slept = []\<rparr>"] run
  show ?thesis by simp
qed

text \<open>
  C7. \<open>can_start_process\<close> holds exactly when the count is below the budget and the
  throttle flag is clear. It is false at or above the budget whatever the flag, and
  false under throttling whatever the count. It is a predicate of the two objects and
  returns neither of them.
\<close>

theorem can_start_process_iff:
  "can_start_process t m = (process_count t < max_concurrent t \<and> \<not> throttle_active m) \<and>
   (max_concurrent t \<le> process_count t \<longrightarrow> \<not> can_start_process t m) \<and>
   (throttle_active m \<longrightarrow> \<not> can_start_process t m)"
  by (auto simp: can_start_process_def)

theorem can_start_process_iff_witness:
  "can_start_process \<lparr>process_count = 1, max_concurrent = 2\<rparr> (manager_at 80 50) \<and>
   \<not> can_start_process \<lparr>process_count = 2, max_concurrent = 2\<rparr> (manager_at 80 50) \<and>
   \<not> can_start_process \<lparr>process_count = 0, max_concurrent = 2\<rparr> (manager_at 80 95)"
  using can_start_process_iff [of "\<lparr>process_count = 1, max_concurrent = 2\<rparr>" "manager_at 80 50"]
    can_start_process_iff [of "\<lparr>process_count = 2, max_concurrent = 2\<rparr>" "manager_at 80 50"]
    can_start_process_iff [of "\<lparr>process_count = 0, max_concurrent = 2\<rparr>" "manager_at 80 95"]
  by (simp add: manager_at_fields)

text \<open>
  C8. No sequence of calls of \<open>start_process\<close> and \<open>end_process\<close> makes the count
  negative: from a count that is not negative, as the constructor's 0, every run of
  calls ends at a count that is not negative. \<open>end_process\<close> takes one off the count
  and stops at 0: it leaves \<open>max 0 (process_count - 1)\<close>, so one less than a positive
  count, and 0 on a fresh throttler; it returns a throttler and raises nothing.
  \<open>start_process\<close>, when it comes back, has added one.
\<close>

theorem process_count_never_negative:
  "process_count (end_process t) = max 0 (process_count t - 1) \<and>
   max_concurrent (end_process t) = max_concurrent t \<and>
   0 \<le> process_count (end_process t) \<and>
   (process_count t = 0 \<longrightarrow> process_count (end_process t) = 0) \<and>
   (0 < process_count t \<longrightarrow> process_count (end_process t) = process_count t - 1) \<and>
   (start_process fl t e w = Some (t1, w1) \<longrightarrow> process_count t1 = process_count t + 1) \<and>
   (0 \<le> process_count t \<and> run_calls fl t cs e w = Some (t', w') \<longrightarrow> 0 \<le> process_count t')"
proof -
  have "0 \<le> process_count t \<Longrightarrow> run_calls fl t cs e w = Some (t', w') \<Longrightarrow> 0 \<le> process_count t'"
  proof (induction fl t cs e w rule: run_calls.induct)
    case (1 fl t e w)
    then show ?case by simp
  next
    case (2 fl t cs e w)
    from "2.prems"(2) obtain t1 w1 where s: "start_process fl t e w = Some (t1, w1)"
      and r: "run_calls fl t1 cs e w1 = Some (t', w')"
      by (auto split: option.splits)
    from process_count_start_process [OF s] "2.prems"(1) have "0 \<le> process_count t1" by simp
    with "2.IH" [OF s refl] r show ?case by simp
  next
    case (3 fl t cs e w)
    from "3.prems"(2) have "run_calls fl (end_process t) cs e w = Some (t', w')" by simp
    with "3.IH" process_count_end_process show ?case by blast
  qed
  moreover have "start_process fl t e w = Some (t1, w1) \<longrightarrow> process_count t1 = process_count t + 1"
    using process_count_start_process [of fl t e w t1 w1] by blast
  ultimately show ?thesis by (auto simp: end_process_def)
qed

theorem process_count_never_negative_witness:
  "(init_ProcessThrottler (Some 4) :: unit error + ProcessThrottler) =
     Inr \<lparr>process_count = 0, max_concurrent = 2\<rparr> \<and>
   process_count (end_process \<lparr>process_count = 0, max_concurrent = 2\<rparr>) = 0 \<and>
   process_count (end_process \<lparr>process_count = 3, max_concurrent = 2\<rparr>) = 2 \<and>
   start_process exact_arith \<lparr>process_count = 0, max_concurrent = 2\<rparr> env_idle world0 =
     Some (\<lparr>process_count = 1, max_concurrent = 2\<rparr>, \<lparr>pos = 2, slept = []\<rparr>) \<and>
   run_calls exact_arith \<lparr>process_count = 0, max_concurrent = 2\<rparr> [End, Begin, Begin, End, End, End]
       env_idle world0 =
     Some (\<lparr>process_count = 0, max_concurrent = 2\<rparr>, \<lparr>pos = 4, slept = []\<rparr>) \<and>
   0 \<le> process_count \<lparr>process_count = 0, max_concurrent = 2\<rparr>"
proof -
  have run: "run_calls exact_arith \<lparr>process_count = 0, max_concurrent = 2\<rparr>
       [End, Begin, Begin, End, End, End] env_idle world0 =
     Some (\<lparr>process_count = 0, max_concurrent = 2\<rparr>, \<lparr>pos = 4, slept = []\<rparr>)"
    by (simp add: start_process_env_idle end_process_def advance_def world0_def)
  have start: "start_process exact_arith \<lparr>process_count = 0, max_concurrent = 2\<rparr> env_idle world0 =
     Some (\<lparr>process_count = 1, max_concurrent = 2\<rparr>, \<lparr>pos = 2, slept = []\<rparr>)"
    by (simp add: start_process_env_idle advance_def world0_def)
  have init: "(init_ProcessThrottler (Some 4) :: unit error + ProcessThrottler) =
     Inr \<lparr>process_count = 0, max_concurrent = 2\<rparr>"
    by (simp add: init_ProcessThrottler_def calculate_max_concurrent_def)
  have three: "process_count (end_process \<lparr>process_count = 3, max_concurrent = 2\<rparr>) = 2"
    using process_count_never_negative [where t = "\<lparr>process_count = 3, max_concurrent = 2\<rparr>"]
    by simp
  have zero: "process_count (end_process \<lparr>process_count = 0, max_concurrent = 2\<rparr>) = 0"
    using process_count_never_negative [where t = "\<lparr>process_count = 0, max_concurrent = 2\<rparr>"]
    by simp
  have "0 \<le> process_count \<lparr>process_count = 0, max_concurrent = 2\<rparr>"
    using process_count_never_negative [where t = "\<lparr>process_count = 0, max_concurrent = 2\<rparr>"
        and fl = exact_arith and cs = "[End, Begin, Begin, End, End, End]" and e = env_idle
        and w = world0 and t' = "\<lparr>process_count = 0, max_concurrent = 2\<rparr>"
        and w' = "\<lparr>pos = 4, slept = []\<rparr>"] run
    by simp
  with init zero three start run show ?thesis by blast
qed

text \<open>
  C9. A call with the timeout 0 does what a call without a timeout does. It cannot
  return false, and while the throttle flag stays set at every reading it never
  returns: the deadline test is behind the truth value of the argument, which is
  false for zero as it is for \<open>None\<close>.
\<close>

theorem timeout_zero_is_no_timeout:
  "wait_for_cpu fl (Some 0) e w = wait_for_cpu fl None e w \<and>
   wait_for_cpu fl (Some 0) e w \<noteq> Some (False, w') \<and>
   ((\<forall>k. throttle_active (seen (e (pos w + k)))) \<longrightarrow> wait_for_cpu fl (Some 0) e w = None)"
proof (intro conjI impI)
  show "wait_for_cpu fl (Some 0) e w = wait_for_cpu fl None e w"
    unfolding wait_for_cpu_def by (rule wait_loop_falsy_eq) (simp_all add: falsy_def)
next
  show "wait_for_cpu fl (Some 0) e w \<noteq> Some (False, w')"
  proof
    assume "wait_for_cpu fl (Some 0) e w = Some (False, w')"
    then have "wait_loop fl (Some 0) (clock (e (pos w))) e (advance w) = Some (False, w')"
      by (simp add: wait_for_cpu_def)
    from wait_loop_falsy_True [OF this] show False by (simp add: falsy_def)
  qed
next
  assume stuck: "\<forall>k. throttle_active (seen (e (pos w + k)))"
  have all: "\<forall>k\<ge>pos (advance w). throttle_active (seen (e k))"
  proof (intro allI impI)
    fix k assume "pos (advance w) \<le> k"
    then have "k = pos w + (k - pos w)" by simp
    with stuck show "throttle_active (seen (e k))" by metis
  qed
  show "wait_for_cpu fl (Some 0) e w = None"
  proof (cases "wait_for_cpu fl (Some 0) e w")
    case None
    then show ?thesis .
  next
    case (Some y)
    then have "wait_loop fl (Some 0) (clock (e (pos w))) e (advance w) = Some y"
      by (simp add: wait_for_cpu_def)
    from wait_loop_blocks [OF this all] have False by (simp add: falsy_def)
    then show ?thesis ..
  qed
qed

theorem timeout_zero_is_no_timeout_witness:
  "(\<forall>k. throttle_active (seen (env_overloaded (pos world0 + k)))) \<and>
   wait_for_cpu exact_arith (Some 0) env_overloaded world0 = None \<and>
   wait_for_cpu exact_arith None env_overloaded world0 = None"
proof -
  have stuck: "\<forall>k. throttle_active (seen (env_overloaded (pos world0 + k)))"
    by (simp add: env_overloaded_throttled)
  from timeout_zero_is_no_timeout [of exact_arith env_overloaded world0 world0] stuck
  have "wait_for_cpu exact_arith (Some 0) env_overloaded world0 = None"
    and "wait_for_cpu exact_arith (Some 0) env_overloaded world0 = wait_for_cpu exact_arith None env_overloaded world0"
    by blast+
  with stuck show ?thesis by simp
qed

text \<open>
  C10. An element of the task list that is not callable is passed over: for a positive
  batch size, a call that comes back comes back as calling the callable elements alone
  in their order does, so the element adds neither an exception nor a value; a
  returned list has one value for each callable element, and is shorter than the task
  list when an element is not callable. The call comes back when the throttle flag
  clears again and again.
\<close>

theorem non_callable_tasks_are_skipped:
  assumes "0 < (case batch_size of None \<Rightarrow> max_concurrent t | Some b \<Rightarrow> b)"
  shows "(\<forall>r. throttled_batch_execute fl t tasks batch_size e w = Some r \<longrightarrow>
            outcome r = results_in_order (callables tasks) \<and>
            (\<forall>rs. outcome r = Inr rs \<longrightarrow>
               length rs = length (filter callable tasks) \<and>
               (NotCallable \<in> set tasks \<longrightarrow> length rs < length tasks))) \<and>
         (eventually_clear e \<longrightarrow> (\<exists>r. throttled_batch_execute fl t tasks batch_size e w = Some r))"
proof (intro conjI allI impI)
  fix r
  assume run: "throttled_batch_execute fl t tasks batch_size e w = Some r"
  show out: "outcome r = results_in_order (callables tasks)"
    using throttled_batch_execute_outcome [OF run assms] .
  fix rs
  assume rs: "outcome r = Inr rs"
  with out have "results_in_order (callables tasks) = Inr rs" by simp
  from results_in_order_length [OF this]
  show len: "length rs = length (filter callable tasks)" by (simp add: length_callables)
  assume "NotCallable \<in> set tasks"
  moreover have "\<not> callable (NotCallable :: ('a, 'b) task)" by simp
  ultimately have "length (filter callable tasks) < length tasks" by (rule length_filter_less)
  with len show "length rs < length tasks" by simp
next
  assume "eventually_clear e"
  then show "\<exists>r. throttled_batch_execute fl t tasks batch_size e w = Some r"
    by (rule throttled_batch_execute_returns)
qed

theorem non_callable_tasks_are_skipped_witness:
  "0 < (case Some 2 of None \<Rightarrow> max_concurrent \<lparr>process_count = 0, max_concurrent = 1\<rparr> | Some b \<Rightarrow> b) \<and>
   eventually_clear env_idle \<and>
   NotCallable \<in> set [Callable (\<lambda>_. Inr 10), NotCallable, Callable (\<lambda>_. Inr (30 :: int)) :: (string, int) task] \<and>
   (\<exists>r. throttled_batch_execute exact_arith \<lparr>process_count = 0, max_concurrent = 1\<rparr>
          [Callable (\<lambda>_. Inr 10), NotCallable, Callable (\<lambda>_. Inr (30 :: int)) :: (string, int) task]
          (Some 2) env_idle world0 = Some r \<and>
        outcome r = Inr [10, 30])"
proof -
  have b: "0 < (case Some 2 of None \<Rightarrow> max_concurrent \<lparr>process_count = 0, max_concurrent = 1\<rparr>
      | Some b \<Rightarrow> b)"
    by simp
  let ?tasks = "[Callable (\<lambda>_. Inr 10), NotCallable, Callable (\<lambda>_. Inr (30 :: int))
      :: (string, int) task]"
  let ?run = "throttled_batch_execute exact_arith \<lparr>process_count = 0, max_concurrent = 1\<rparr>
      ?tasks (Some 2) env_idle world0"
  from non_callable_tasks_are_skipped [OF b, of exact_arith ?tasks env_idle world0]
    eventually_clear_env_idle
  obtain r where "?run = Some r" and "outcome r = results_in_order (callables ?tasks)"
    by blast
  then have "\<exists>r. ?run = Some r \<and> outcome r = Inr [10, 30]" by simp
  then show ?thesis using eventually_clear_env_idle by simp
qed

end
